theory Spec2Isabelle
  imports Main "HOL-Library.Word"
begin

section \<open>Fields of the logging backend\<close>

text \<open>
  \<^verbatim>\<open>zap.Field\<close> is the struct
  \<^verbatim>\<open>{Key string; Type FieldType; Integer int64; String string; Interface interface{}}\<close>
  of the logging backend. \<^verbatim>\<open>FieldType\<close> is an enumeration; the dynamic value held in
  \<^verbatim>\<open>Interface\<close> is a string array (what \<^verbatim>\<open>zap.Strings\<close> stores), nothing, or any other
  value, which the store never inspects.
\<close>

datatype FieldType =
    UnknownType | ArrayMarshalerType | ObjectMarshalerType | BinaryType | BoolType
  | ByteStringType | Complex128Type | Complex64Type | DurationType | Float64Type
  | Float32Type | Int64Type | Int32Type | Int16Type | Int8Type | StringType | TimeType
  | TimeFullType | Uint64Type | Uint32Type | Uint16Type | Uint8Type | UintptrType
  | ReflectType | NamespaceType | StringerType | ErrorType | SkipType
  | InlineMarshalerType

datatype iface = nilInterface | stringArray "string list" | otherInterface nat

record Field =
  Key :: string
  Type :: FieldType
  Integer :: "64 word"
  String :: string
  Interface :: iface

text \<open>The zero value \<^verbatim>\<open>zap.Field{}\<close>.\<close>

definition zeroField :: Field where
  "zeroField = \<lparr>Key = [], Type = UnknownType, Integer = 0, String = [], Interface = nilInterface\<rparr>"

text \<open>The backend's constructors \<^verbatim>\<open>zap.String\<close>, \<^verbatim>\<open>zap.Int64\<close> and \<^verbatim>\<open>zap.Strings\<close>.\<close>

definition zap_String :: "string \<Rightarrow> string \<Rightarrow> Field" where
  "zap_String key val = zeroField\<lparr>Key := key, Type := StringType, String := val\<rparr>"

definition zap_Int64 :: "string \<Rightarrow> 64 word \<Rightarrow> Field" where
  "zap_Int64 key val = zeroField\<lparr>Key := key, Type := Int64Type, Integer := val\<rparr>"

definition zap_Strings :: "string \<Rightarrow> string list \<Rightarrow> Field" where
  "zap_Strings key ss =
     zeroField\<lparr>Key := key, Type := ArrayMarshalerType, Interface := stringArray ss\<rparr>"

section \<open>Slices over a store of backing arrays\<close>

text \<open>
  A Go slice is a reference: a backing array, an offset into it, a length and a capacity.
  Two slices over one array share its cells, so the arrays live in an explicit store,
  addressed by their index; an array never changes its size. The nil slice has no array.
\<close>

type_synonym heap = "Field list list"

datatype slice = NilSlice | Slice nat nat nat nat

fun len :: "slice \<Rightarrow> nat" where
  "len NilSlice = 0"
| "len (Slice b i n c) = n"

fun cap :: "slice \<Rightarrow> nat" where
  "cap NilSlice = 0"
| "cap (Slice b i n c) = c"

text \<open>The fields a slice shows in a store, in order.\<close>

fun elems :: "heap \<Rightarrow> slice \<Rightarrow> Field list" where
  "elems h NilSlice = []"
| "elems h (Slice b i n c) = take n (drop i (h ! b))"

datatype panic = IndexOutOfRange

text \<open>\<^verbatim>\<open>s[i]\<close>: bounds-checked against the length of the slice.\<close>

fun index :: "heap \<Rightarrow> slice \<Rightarrow> nat \<Rightarrow> panic + Field" where
  "index h NilSlice k = Inl IndexOutOfRange"
| "index h (Slice b i n c) k = (if k < n then Inr (h ! b ! (i + k)) else Inl IndexOutOfRange)"

text \<open>\<^verbatim>\<open>make([]zap.Field, 0, n)\<close>: a fresh array of \<open>n\<close> zero fields, and an empty slice over it.\<close>

definition go_make :: "heap \<Rightarrow> nat \<Rightarrow> heap \<times> slice" where
  "go_make h n = (h @ [replicate n zeroField], Slice (length h) 0 0 n)"

text \<open>Overwriting the cells of an array from position \<open>pos\<close> on.\<close>

definition store :: "Field list \<Rightarrow> nat \<Rightarrow> Field list \<Rightarrow> Field list" where
  "store arr pos xs = take pos arr @ xs @ drop (pos + length xs) arr"

text \<open>
  \<^verbatim>\<open>append(s, xs...)\<close>. When the capacity of \<open>s\<close> suffices, the new elements are written
  into the backing array of \<open>s\<close>, behind its length, and the result shares that array.
  Otherwise a new array is allocated and filled with the old and the new elements. How
  much capacity the new array gets is the runtime's choice; it is the parameter \<open>grow\<close>,
  from the old capacity and the length needed, and is never less than the length needed.
\<close>

definition valid_grow :: "(nat \<Rightarrow> nat \<Rightarrow> nat) \<Rightarrow> bool" where
  "valid_grow grow = (\<forall>old need. need \<le> grow old need)"

fun go_append :: "(nat \<Rightarrow> nat \<Rightarrow> nat) \<Rightarrow> heap \<Rightarrow> slice \<Rightarrow> Field list \<Rightarrow> heap \<times> slice" where
  "go_append grow h s xs =
     (if len s + length xs \<le> cap s then
        (case s of
           NilSlice \<Rightarrow> (h, NilSlice)
         | Slice b i n c \<Rightarrow> (h[b := store (h ! b) (i + n) xs], Slice b i (n + length xs) c))
      else
        (let need = len s + length xs;
             newcap = grow (cap s) need
         in (h @ [elems h s @ xs @ replicate (newcap - need) zeroField],
             Slice (length h) 0 need newcap)))"

section \<open>Contexts\<close>

text \<open>
  A context is the empty context (\<^verbatim>\<open>context.Background()\<close>, \<^verbatim>\<open>context.TODO()\<close>) or
  \<^verbatim>\<open>context.WithValue(parent, key, val)\<close>. Keys are compared with their type: the store's
  own key type \<^verbatim>\<open>key\<close> is a string type no other package can name. A value is a
  \<^verbatim>\<open>[]zap.Field\<close> or anything else.
\<close>

datatype ckey = zax_key string | foreignKey nat

datatype cval = fieldsVal slice | foreignVal nat

datatype Context = Background | TODO | WithValue Context ckey cval

definition loggerKey :: ckey where
  "loggerKey = zax_key ''zax''"

definition AbsentFieldsKey :: string where
  "AbsentFieldsKey = ''_absentFields''"

fun Value :: "Context \<Rightarrow> ckey \<Rightarrow> cval option" where
  "Value Background k = None"
| "Value TODO k = None"
| "Value (WithValue parent k' v) k = (if k' = k then Some v else Value parent k)"

text \<open>The type assertion \<^verbatim>\<open>v.([]zap.Field)\<close> with its ok flag.\<close>

fun asFields :: "cval option \<Rightarrow> slice option" where
  "asFields (Some (fieldsVal s)) = Some s"
| "asFields _ = None"

section \<open>The store's operations\<close>

text \<open>
  Every operation that calls \<^verbatim>\<open>append\<close> or \<^verbatim>\<open>make\<close> takes the store and returns the new one;
  an operation that reads fields takes the store it reads them from.

  \<^verbatim>\<open>func Set(ctx, fields) { return context.WithValue(ctx, loggerKey, fields) }\<close>
\<close>

definition Set :: "Context \<Rightarrow> slice \<Rightarrow> Context" where
  "Set ctx flds = WithValue ctx loggerKey (fieldsVal flds)"

text \<open>
  \<^verbatim>\<open>if loggerFields, ok := ctx.Value(loggerKey).([]zap.Field); ok {\<close>
  \<^verbatim>\<open>    fields = append(loggerFields, fields...) }\<close>
  \<^verbatim>\<open>return context.WithValue(ctx, loggerKey, fields)\<close>

  The elements of \<^verbatim>\<open>fields\<close> are read before \<^verbatim>\<open>append\<close> writes, as the runtime's copy does
  when source and destination overlap.
\<close>

definition Append ::
  "(nat \<Rightarrow> nat \<Rightarrow> nat) \<Rightarrow> heap \<Rightarrow> Context \<Rightarrow> slice \<Rightarrow> heap \<times> Context" where
  "Append grow h ctx flds =
     (case asFields (Value ctx loggerKey) of
        Some loggerFields \<Rightarrow>
          (case go_append grow h loggerFields (elems h flds) of
             (h', flds') \<Rightarrow> (h', WithValue ctx loggerKey (fieldsVal flds')))
      | None \<Rightarrow> (h, WithValue ctx loggerKey (fieldsVal flds)))"

text \<open>
  The unnamed revision of the package file differs in one line of \<^verbatim>\<open>Append\<close>:
  \<^verbatim>\<open>fields = append(fields, loggerFields...)\<close>, the bound fields behind the new ones.
\<close>

definition Append_part_000 ::
  "(nat \<Rightarrow> nat \<Rightarrow> nat) \<Rightarrow> heap \<Rightarrow> Context \<Rightarrow> slice \<Rightarrow> heap \<times> Context" where
  "Append_part_000 grow h ctx flds =
     (case asFields (Value ctx loggerKey) of
        Some loggerFields \<Rightarrow>
          (case go_append grow h flds (elems h loggerFields) of
             (h', flds') \<Rightarrow> (h', WithValue ctx loggerKey (fieldsVal flds')))
      | None \<Rightarrow> (h, WithValue ctx loggerKey (fieldsVal flds)))"

text \<open>
  \<^verbatim>\<open>if loggerFields, ok := ctx.Value(loggerKey).([]zap.Field); ok { return loggerFields }\<close>
  \<^verbatim>\<open>return nil\<close>
\<close>

definition GetAll :: "Context \<Rightarrow> slice" where
  "GetAll ctx =
     (case asFields (Value ctx loggerKey) of
        Some loggerFields \<Rightarrow> loggerFields
      | None \<Rightarrow> NilSlice)"

text \<open>
  The \<^verbatim>\<open>range\<close> loop of \<^verbatim>\<open>GetField\<close>,
  \<^verbatim>\<open>for _, field := range loggerFields { if field.Key == key { return field, true } }\<close>:
  \<open>Some\<close> is its early return. Behind the loop, and when nothing is bound,
  \<^verbatim>\<open>return zap.Field{}, false\<close>.
\<close>

fun GetField_loop :: "Field list \<Rightarrow> string \<Rightarrow> (Field \<times> bool) option" where
  "GetField_loop [] key = None"
| "GetField_loop (field # rest) key =
     (if Key field = key then Some (field, True) else GetField_loop rest key)"

definition GetField :: "heap \<Rightarrow> Context \<Rightarrow> string \<Rightarrow> Field \<times> bool" where
  "GetField h ctx key =
     (case asFields (Value ctx loggerKey) of
        Some loggerFields \<Rightarrow>
          (case GetField_loop (elems h loggerFields) key of
             Some r \<Rightarrow> r
           | None \<Rightarrow> (zeroField, False))
      | None \<Rightarrow> (zeroField, False))"

text \<open>
  The loop of \<^verbatim>\<open>GetFields\<close> over the requested keys:
  \<^verbatim>\<open>if field, ok := GetField(ctx, key); ok { fields = append(fields, field) }\<close>
  \<^verbatim>\<open>else { absentKeys = append(absentKeys, key) }\<close>.
  \<^verbatim>\<open>absentKeys\<close> is a local string slice, made with room for every key and shared with
  nothing, so it is a list here; \<^verbatim>\<open>fields\<close> is a slice in the store, made by
  \<^verbatim>\<open>make([]zap.Field, 0, len(keys))\<close>. The result is
  \<^verbatim>\<open>append(fields, zap.Strings(AbsentFieldsKey, absentKeys))\<close>.
\<close>

fun GetFields_loop ::
  "(nat \<Rightarrow> nat \<Rightarrow> nat) \<Rightarrow> Context \<Rightarrow> string list \<Rightarrow> heap \<times> slice \<times> string list
     \<Rightarrow> heap \<times> slice \<times> string list" where
  "GetFields_loop grow ctx [] st = st"
| "GetFields_loop grow ctx (key # keys) (h, flds, absentKeys) =
     (case GetField h ctx key of
        (field, True) \<Rightarrow>
          (case go_append grow h flds [field] of
             (h', flds') \<Rightarrow> GetFields_loop grow ctx keys (h', flds', absentKeys))
      | (field, False) \<Rightarrow> GetFields_loop grow ctx keys (h, flds, absentKeys @ [key]))"

definition GetFields ::
  "(nat \<Rightarrow> nat \<Rightarrow> nat) \<Rightarrow> heap \<Rightarrow> Context \<Rightarrow> string list \<Rightarrow> heap \<times> slice" where
  "GetFields grow h ctx keys =
     (case go_make h (length keys) of
        (h1, flds) \<Rightarrow>
          (case GetFields_loop grow ctx keys (h1, flds, []) of
             (h2, flds', absentKeys) \<Rightarrow>
               go_append grow h2 flds' [zap_Strings AbsentFieldsKey absentKeys]))"

text \<open>
  The loop of \<^verbatim>\<open>Prune\<close>,
  \<^verbatim>\<open>for i := len(loggerFields) - 1; i >= 0; i-- {\<close>
  \<^verbatim>\<open>    field := loggerFields[i]\<close>
  \<^verbatim>\<open>    if _, seen := seenKeys[field.Key]; !seen { prunedFields = append(prunedFields, field) }\<close>
  \<^verbatim>\<open>    seenKeys[field.Key] = true }\<close>:
  \<open>i\<close> runs from \<open>len - 1\<close> down to \<open>0\<close>; the counter here is \<open>i + 1\<close>. \<^verbatim>\<open>seenKeys\<close> is the
  map of the keys met so far. \<^verbatim>\<open>prunedFields\<close> is made by
  \<^verbatim>\<open>make([]zap.Field, 0, len(loggerFields))\<close>, and the result is \<^verbatim>\<open>Set(ctx, prunedFields)\<close>;
  with nothing bound, \<^verbatim>\<open>Prune\<close> returns \<^verbatim>\<open>ctx\<close>.
\<close>

fun Prune_loop ::
  "(nat \<Rightarrow> nat \<Rightarrow> nat) \<Rightarrow> slice \<Rightarrow> nat \<Rightarrow> heap \<times> slice \<times> (string \<rightharpoonup> bool)
     \<Rightarrow> panic + heap \<times> slice \<times> (string \<rightharpoonup> bool)" where
  "Prune_loop grow loggerFields 0 st = Inr st"
| "Prune_loop grow loggerFields (Suc i) (h, prunedFields, seenKeys) =
     (case index h loggerFields i of
        Inl p \<Rightarrow> Inl p
      | Inr field \<Rightarrow>
          (case (if seenKeys (Key field) = None
                 then go_append grow h prunedFields [field]
                 else (h, prunedFields)) of
             (h', prunedFields') \<Rightarrow>
               Prune_loop grow loggerFields i (h', prunedFields', seenKeys(Key field \<mapsto> True))))"

definition Prune :: "(nat \<Rightarrow> nat \<Rightarrow> nat) \<Rightarrow> heap \<Rightarrow> Context \<Rightarrow> panic + heap \<times> Context" where
  "Prune grow h ctx =
     (case asFields (Value ctx loggerKey) of
        Some loggerFields \<Rightarrow>
          (case go_make h (len loggerFields) of
             (h1, prunedFields) \<Rightarrow>
               (case Prune_loop grow loggerFields (len loggerFields) (h1, prunedFields, Map.empty) of
                  Inl p \<Rightarrow> Inl p
                | Inr (h2, prunedFields', seenKeys) \<Rightarrow> Inr (h2, Set ctx prunedFields')))
      | None \<Rightarrow> Inr (h, ctx))"

section \<open>Well-formed stores\<close>

text \<open>
  The language keeps every slice inside its array: the array exists, the length is at most
  the capacity, and the capacity ends inside the array.
\<close>

fun wf_slice :: "heap \<Rightarrow> slice \<Rightarrow> bool" where
  "wf_slice h NilSlice = True"
| "wf_slice h (Slice b i n c) = (b < length h \<and> n \<le> c \<and> i + c \<le> length (h ! b))"



section \<open>Notions used in the statements\<close>

text \<open>
  A store \<open>h\<close> extends \<open>h0\<close> when the arrays of \<open>h0\<close> are in \<open>h\<close>, unchanged, at the
  same addresses; anything else in \<open>h\<close> was allocated later.
\<close>

definition extends :: "heap \<Rightarrow> heap \<Rightarrow> bool" where
  "extends h0 h = (take (length h0) h = h0)"

text \<open>A slice over an array allocated at address \<open>m\<close> or later (so not the nil slice).\<close>

fun above :: "nat \<Rightarrow> slice \<Rightarrow> bool" where
  "above m NilSlice = False"
| "above m (Slice b i n c) = (m \<le> b)"

text \<open>
  What the loop of \<^verbatim>\<open>Prune\<close> keeps when it walks a list: the first field of every key
  that is not in \<open>seen\<close>.
\<close>

fun keep_first :: "Field list \<Rightarrow> string set \<Rightarrow> Field list" where
  "keep_first [] seen = []"
| "keep_first (f # fs) seen =
     (if Key f \<in> seen then keep_first fs seen else f # keep_first fs (insert (Key f) seen))"

text \<open>
  The last occurrence of every key of a sequence, in the order of the sequence: a field is
  dropped exactly when its key occurs again behind it.
\<close>

fun last_occurrences :: "Field list \<Rightarrow> Field list" where
  "last_occurrences [] = []"
| "last_occurrences (f # fs) =
     (if Key f \<in> Key ` set fs then last_occurrences fs else f # last_occurrences fs)"

text \<open>One growth policy the runtime may follow: doubling, or the length needed if that is more.\<close>

definition grow_double :: "nat \<Rightarrow> nat \<Rightarrow> nat" where
  "grow_double old need = (if 2 * old < need then need else 2 * old)"

text \<open>Stores of concrete fields.\<close>

definition ex_heap :: heap where
  "ex_heap =
     [[zap_String ''trace_id'' ''T1'', zeroField, zeroField, zeroField],
      [zap_String ''span_id'' ''S1''],
      [zap_String ''span_id'' ''S2'']]"

definition dup_heap :: heap where
  "dup_heap =
     [[zap_Int64 ''a'' 1, zap_Int64 ''b'' 7, zap_Int64 ''a'' 3],
      [zap_Int64 ''a'' 1],
      [zap_Int64 ''a'' 2]]"

definition chain_heap :: heap where
  "chain_heap =
     [[zap_String ''a'' ''1''], [zap_String ''b'' ''2''], [zap_String ''c'' ''3''],
      [zap_String ''x'' ''4''], [zap_String ''y'' ''5'']]"

section \<open>Stores and slices\<close>

lemma length_store: "pos + length xs \<le> length arr \<Longrightarrow> length (store arr pos xs) = length arr"
  by (simp add: store_def)

lemma take_drop_store:
  "i + n + length xs \<le> length arr \<Longrightarrow>
   take (n + length xs) (drop i (store arr (i + n) xs)) = take n (drop i arr) @ xs"
  by (simp add: store_def drop_take)

lemma length_elems: "wf_slice h s \<Longrightarrow> length (elems h s) = len s"
  by (cases s) auto

lemma extends_refl: "extends h h"
  by (simp add: extends_def)

lemma extends_length: "extends h0 h \<Longrightarrow> length h0 \<le> length h"
proof -
  assume "extends h0 h"
  then have "length (take (length h0) h) = length h0"
    by (simp only: extends_def)
  then show ?thesis by simp
qed

lemma extends_nth: "extends h0 h \<Longrightarrow> a < length h0 \<Longrightarrow> h ! a = h0 ! a"
proof -
  assume e: "extends h0 h" and a: "a < length h0"
  from a have "take (length h0) h ! a = h ! a" by simp
  with e show ?thesis by (simp only: extends_def)
qed

lemma extends_snoc: "extends h0 h \<Longrightarrow> extends h0 (h @ [arr])"
  using extends_length [of h0 h] by (simp add: extends_def)

lemma extends_update: "extends h0 h \<Longrightarrow> length h0 \<le> b \<Longrightarrow> extends h0 (h[b := arr])"
  by (simp add: extends_def)

lemma extends_elems: "extends h0 h \<Longrightarrow> wf_slice h0 s \<Longrightarrow> elems h s = elems h0 s"
  using extends_nth [of h0 h] by (cases s) auto


lemma extends_index:
  "extends h0 h \<Longrightarrow> wf_slice h0 s \<Longrightarrow> k < len s \<Longrightarrow> index h s k = Inr (elems h0 s ! k)"
  using extends_nth [of h0 h] by (cases s) auto

lemma go_append_nil: "go_append g h NilSlice [] = (h, NilSlice)"
  by simp

lemma go_append_inplace:
  "n + length xs \<le> c \<Longrightarrow>
   go_append g h (Slice b i n c) xs =
     (h[b := store (h ! b) (i + n) xs], Slice b i (n + length xs) c)"
  by simp

lemma go_append_alloc:
  "\<not> len s + length xs \<le> cap s \<Longrightarrow>
   go_append g h s xs =
     (h @ [elems h s @ xs @ replicate (g (cap s) (len s + length xs) - (len s + length xs)) zeroField],
      Slice (length h) 0 (len s + length xs) (g (cap s) (len s + length xs)))"
  by (simp add: Let_def)

declare go_append.simps [simp del]

lemma go_append_cases:
  obtains (nil) "s = NilSlice" "xs = []" "go_append g h s xs = (h, NilSlice)"
  | (inplace) b i n c where "s = Slice b i n c" "n + length xs \<le> c"
      "go_append g h s xs = (h[b := store (h ! b) (i + n) xs], Slice b i (n + length xs) c)"
  | (alloc) "\<not> len s + length xs \<le> cap s"
      "go_append g h s xs =
        (h @ [elems h s @ xs @ replicate (g (cap s) (len s + length xs) - (len s + length xs)) zeroField],
         Slice (length h) 0 (len s + length xs) (g (cap s) (len s + length xs)))"
proof (cases "len s + length xs \<le> cap s")
  case True
  show ?thesis
  proof (cases s)
    case NilSlice
    with True show ?thesis using nil go_append_nil by simp
  next
    case (Slice b i n c)
    with True show ?thesis using inplace go_append_inplace by simp
  qed
next
  case False
  then show ?thesis using alloc go_append_alloc by blast
qed

lemma go_append_elems:
  assumes "valid_grow g" and "wf_slice h s" and "go_append g h s xs = (h', s')"
  shows "elems h' s' = elems h s @ xs"
proof (cases rule: go_append_cases [of s xs g h])
  case nil
  with assms show ?thesis by simp
next
  case (inplace b i n c)
  with assms have "h' = h[b := store (h ! b) (i + n) xs]" "s' = Slice b i (n + length xs) c"
    by simp_all
  moreover from inplace assms have "b < length h" "i + n + length xs \<le> length (h ! b)"
    by simp_all
  ultimately show ?thesis using inplace by (simp add: take_drop_store)
next
  case alloc
  with assms have "h' = h @ [elems h s @ xs @ replicate (g (cap s) (len s + length xs) - (len s + length xs)) zeroField]"
     "s' = Slice (length h) 0 (len s + length xs) (g (cap s) (len s + length xs))"
    by simp_all
  then show ?thesis using assms(2) by (simp add: length_elems)
qed

lemma go_append_wf:
  assumes "valid_grow g" and "wf_slice h s" and "go_append g h s xs = (h', s')"
  shows "wf_slice h' s'"
proof (cases rule: go_append_cases [of s xs g h])
  case nil
  with assms show ?thesis by auto
next
  case (inplace b i n c)
  with assms have "h' = h[b := store (h ! b) (i + n) xs]" "s' = Slice b i (n + length xs) c"
    by simp_all
  moreover from inplace assms have "b < length h" "i + c \<le> length (h ! b)"
    by simp_all
  ultimately show ?thesis using inplace by (simp add: length_store)
next
  case alloc
  with assms have "h' = h @ [elems h s @ xs @ replicate (g (cap s) (len s + length xs) - (len s + length xs)) zeroField]"
     "s' = Slice (length h) 0 (len s + length xs) (g (cap s) (len s + length xs))"
    by simp_all
  moreover have "len s + length xs \<le> g (cap s) (len s + length xs)"
    using assms(1) by (simp add: valid_grow_def)
  ultimately show ?thesis using assms(2) by (simp add: length_elems)
qed

lemma go_append_keeps_wf:
  assumes "wf_slice h s" and "go_append g h s xs = (h', s')" and "wf_slice h t"
  shows "wf_slice h' t"
proof (cases rule: go_append_cases [of s xs g h])
  case nil
  with assms show ?thesis by auto
next
  case (inplace b i n c)
  with assms have h': "h' = h[b := store (h ! b) (i + n) xs]"
    by simp
  from inplace assms have "i + n + length xs \<le> length (h ! b)"
    by simp
  then have "length (store (h ! b) (i + n) xs) = length (h ! b)"
    by (simp add: length_store)
  moreover from inplace assms have "b < length h" by simp
  ultimately show ?thesis using h' assms(3)
    by (cases t) (auto simp: nth_list_update)
next
  case alloc
  with assms have "h' = h @ [elems h s @ xs @ replicate (g (cap s) (len s + length xs) - (len s + length xs)) zeroField]"
    by simp
  with assms(3) show ?thesis by (cases t) (auto simp: nth_append)
qed

lemma go_append_extends:
  assumes "extends h0 h" and "above (length h0) s" and "go_append g h s xs = (h', s')"
  shows "extends h0 h' \<and> above (length h0) s'"
proof (cases rule: go_append_cases [of s xs g h])
  case nil
  with assms show ?thesis by auto
next
  case (inplace b i n c)
  with assms have "h' = h[b := store (h ! b) (i + n) xs]" "s' = Slice b i (n + length xs) c"
    by simp_all
  with inplace assms show ?thesis by (simp add: extends_update)
next
  case alloc
  with assms have "h' = h @ [elems h s @ xs @ replicate (g (cap s) (len s + length xs) - (len s + length xs)) zeroField]"
     "s' = Slice (length h) 0 (len s + length xs) (g (cap s) (len s + length xs))"
    by simp_all
  with assms(1) extends_length [OF assms(1)] show ?thesis by (simp add: extends_snoc)
qed

lemma go_make_props:
  assumes "go_make h n = (h1, s)"
  shows "extends h h1" and "above (length h) s" and "wf_slice h1 s" and "elems h1 s = []"
    and "len s = 0"
  using assms by (auto simp: go_make_def extends_def)

lemma Prune_loop_result:
  assumes g: "valid_grow g" and lf: "wf_slice h0 lf"
  shows "n \<le> len lf \<Longrightarrow> extends h0 h \<Longrightarrow> wf_slice h p \<Longrightarrow> above (length h0) p \<Longrightarrow>
     \<exists>h' p' seen'. Prune_loop g lf n (h, p, seen) = Inr (h', p', seen')
        \<and> extends h0 h' \<and> wf_slice h' p' \<and> above (length h0) p'
        \<and> elems h' p' = elems h p @ keep_first (rev (take n (elems h0 lf))) (dom seen)"
proof (induction n arbitrary: h p seen)
  case 0
  then show ?case by simp
next
  case (Suc n)
  let ?L = "elems h0 lf"
  let ?f = "?L ! n"
  from Suc.prems have n: "n < len lf" by simp
  then have nL: "n < length ?L" using lf by (simp add: length_elems)
  have idx: "index h lf n = Inr ?f"
    using extends_index [OF Suc.prems(2) lf n] .
  have tk: "rev (take (Suc n) ?L) = ?f # rev (take n ?L)"
    using nL by (simp add: take_Suc_conv_app_nth)
  show ?case
  proof (cases "seen (Key ?f) = None")
    case True
    obtain h1 p1 where ap: "go_append g h p [?f] = (h1, p1)"
      by (cases "go_append g h p [?f]")
    have e1: "extends h0 h1" and a1: "above (length h0) p1"
      using go_append_extends [OF Suc.prems(2) Suc.prems(4) ap] by simp_all
    have w1: "wf_slice h1 p1" using go_append_wf [OF g Suc.prems(3) ap] .
    have el1: "elems h1 p1 = elems h p @ [?f]"
      using go_append_elems [OF g Suc.prems(3) ap] .
    from n have n': "n \<le> len lf" by simp
    from Suc.IH [OF n' e1 w1 a1, of "seen(Key ?f \<mapsto> True)"]
    obtain h' p' seen' where
      r: "Prune_loop g lf n (h1, p1, seen(Key ?f \<mapsto> True)) = Inr (h', p', seen')"
      and props: "extends h0 h'" "wf_slice h' p'" "above (length h0) p'"
      and el: "elems h' p' = elems h1 p1 @ keep_first (rev (take n ?L)) (dom (seen(Key ?f \<mapsto> True)))"
      by blast
    have "Prune_loop g lf (Suc n) (h, p, seen) = Inr (h', p', seen')"
      using idx True ap r by simp
    moreover have "elems h' p' = elems h p @ keep_first (rev (take (Suc n) ?L)) (dom seen)"
      using el el1 True tk by (simp add: domIff)
    ultimately show ?thesis using props by blast
  next
    case False
    from n have n': "n \<le> len lf" by simp
    from Suc.IH [OF n' Suc.prems(2) Suc.prems(3) Suc.prems(4), of "seen(Key ?f \<mapsto> True)"]
    obtain h' p' seen' where
      r: "Prune_loop g lf n (h, p, seen(Key ?f \<mapsto> True)) = Inr (h', p', seen')"
      and props: "extends h0 h'" "wf_slice h' p'" "above (length h0) p'"
      and el: "elems h' p' = elems h p @ keep_first (rev (take n ?L)) (dom (seen(Key ?f \<mapsto> True)))"
      by blast
    have "Prune_loop g lf (Suc n) (h, p, seen) = Inr (h', p', seen')"
      using idx False r by (simp del: not_None_eq)
    moreover have "insert (Key ?f) (dom seen) = dom seen"
      using False by (auto simp: domIff)
    then have "elems h' p' = elems h p @ keep_first (rev (take (Suc n) ?L)) (dom seen)"
      using el False tk by (simp add: domIff)
    ultimately show ?thesis using props by blast
  qed
qed

lemma keep_first_append:
  "keep_first (xs @ ys) seen = keep_first xs seen @ keep_first ys (seen \<union> Key ` set xs)"
proof (induction xs arbitrary: seen)
  case Nil
  then show ?case by simp
next
  case (Cons x xs)
  have "insert (Key x) (seen \<union> Key ` set xs) = insert (Key x) seen \<union> Key ` set xs" by simp
  moreover have "Key x \<in> seen \<Longrightarrow> insert (Key x) (seen \<union> Key ` set xs) = seen \<union> Key ` set xs"
    by auto
  ultimately show ?case using Cons.IH by simp
qed

lemma keep_first_rev:
  "keep_first (rev xs) seen = rev (filter (\<lambda>f. Key f \<notin> seen) (last_occurrences xs))"
proof (induction xs)
  case Nil
  then show ?case by simp
next
  case (Cons x xs)
  then show ?case by (simp add: keep_first_append)
qed

lemma keep_first_rev_empty: "keep_first (rev xs) {} = rev (last_occurrences xs)"
  by (simp add: keep_first_rev)

lemma filter_last_occurrences:
  "filter (\<lambda>f. Key f = k) (last_occurrences xs) =
     (if k \<in> Key ` set xs then [last (filter (\<lambda>f. Key f = k) xs)] else [])"
proof (induction xs)
  case Nil
  then show ?case by simp
next
  case (Cons x xs)
  show ?case
  proof (cases "Key x \<in> Key ` set xs")
    case True
    then show ?thesis using Cons.IH by (auto simp: filter_empty_conv)
  next
    case False
    then show ?thesis using Cons.IH by (auto simp: filter_empty_conv)
  qed
qed

lemma Prune_bound:
  assumes g: "valid_grow g" and v: "asFields (Value ctx loggerKey) = Some lf"
    and lf: "wf_slice h lf"
  shows "\<exists>h' p. Prune g h ctx = Inr (h', Set ctx p) \<and> extends h h' \<and> wf_slice h' p
           \<and> p \<noteq> NilSlice \<and> elems h' p = rev (last_occurrences (elems h lf))"
proof -
  obtain h1 p1 where mk: "go_make h (len lf) = (h1, p1)"
    by (cases "go_make h (len lf)")
  note m = go_make_props [OF mk]
  from Prune_loop_result [OF g lf order_refl m(1) m(3) m(2), of Map.empty]
  obtain h' p' seen' where
    r: "Prune_loop g lf (len lf) (h1, p1, Map.empty) = Inr (h', p', seen')"
    and props: "extends h h'" "wf_slice h' p'" "above (length h) p'"
    and el: "elems h' p' = elems h1 p1 @ keep_first (rev (take (len lf) (elems h lf))) (dom Map.empty)"
    by auto
  have "Prune g h ctx = Inr (h', Set ctx p')"
    using v mk r by (simp add: Prune_def)
  moreover have "elems h' p' = rev (last_occurrences (elems h lf))"
    using el m(4) length_elems [OF lf] by (simp add: keep_first_rev_empty)
  moreover have "p' \<noteq> NilSlice" using props(3) by auto
  ultimately show ?thesis using props by blast
qed

lemma GetField_GetAll:
  "GetField h ctx k =
     (case GetField_loop (elems h (GetAll ctx)) k of Some r \<Rightarrow> r | None \<Rightarrow> (zeroField, False))"
  by (cases "asFields (Value ctx loggerKey)") (simp_all add: GetField_def GetAll_def)

lemma GetField_extends:
  "extends h0 h \<Longrightarrow> wf_slice h0 (GetAll ctx) \<Longrightarrow> GetField h ctx k = GetField h0 ctx k"
  by (simp add: GetField_GetAll extends_elems)

lemma GetFields_loop_result:
  assumes g: "valid_grow g" and lf: "wf_slice h0 (GetAll ctx)"
  shows "extends h0 h \<Longrightarrow> wf_slice h fs \<Longrightarrow> above (length h0) fs \<Longrightarrow>
     \<exists>h' fs'. GetFields_loop g ctx keys (h, fs, absent) =
          (h', fs', absent @ filter (\<lambda>k. \<not> snd (GetField h0 ctx k)) keys)
        \<and> extends h0 h' \<and> wf_slice h' fs' \<and> above (length h0) fs'
        \<and> elems h' fs' =
            elems h fs @ map (\<lambda>k. fst (GetField h0 ctx k)) (filter (\<lambda>k. snd (GetField h0 ctx k)) keys)"
proof (induction keys arbitrary: h fs absent)
  case Nil
  then show ?case by simp
next
  case (Cons k keys)
  have gf: "GetField h ctx k = GetField h0 ctx k"
    using GetField_extends [OF Cons.prems(1) lf] .
  obtain f ok where r: "GetField h0 ctx k = (f, ok)"
    by (cases "GetField h0 ctx k")
  show ?case
  proof (cases ok)
    case True
    obtain h1 fs1 where ap: "go_append g h fs [f] = (h1, fs1)"
      by (cases "go_append g h fs [f]")
    have e1: "extends h0 h1" and a1: "above (length h0) fs1"
      using go_append_extends [OF Cons.prems(1) Cons.prems(3) ap] by simp_all
    have w1: "wf_slice h1 fs1" using go_append_wf [OF g Cons.prems(2) ap] .
    have el1: "elems h1 fs1 = elems h fs @ [f]"
      using go_append_elems [OF g Cons.prems(2) ap] .
    from Cons.IH [OF e1 w1 a1, of absent] el1 gf r True ap
    show ?thesis by simp
  next
    case False
    from Cons.IH [OF Cons.prems, of "absent @ [k]"] gf r False
    show ?thesis by simp
  qed
qed

lemma GetFields_result:
  assumes g: "valid_grow g" and lf: "wf_slice h (GetAll ctx)"
  shows "\<exists>h' res. GetFields g h ctx keys = (h', res) \<and> extends h h' \<and> wf_slice h' res
     \<and> elems h' res =
          map (\<lambda>k. fst (GetField h ctx k)) (filter (\<lambda>k. snd (GetField h ctx k)) keys)
          @ [zap_Strings AbsentFieldsKey (filter (\<lambda>k. \<not> snd (GetField h ctx k)) keys)]"
proof -
  let ?found = "map (\<lambda>k. fst (GetField h ctx k)) (filter (\<lambda>k. snd (GetField h ctx k)) keys)"
  let ?absent = "filter (\<lambda>k. \<not> snd (GetField h ctx k)) keys"
  obtain h1 fs1 where mk: "go_make h (length keys) = (h1, fs1)"
    by (cases "go_make h (length keys)")
  note m = go_make_props [OF mk]
  from GetFields_loop_result [OF g lf m(1) m(3) m(2), of keys "[]"]
  obtain h2 fs2 where
    r: "GetFields_loop g ctx keys (h1, fs1, []) = (h2, fs2, ?absent)"
    and props: "extends h h2" "wf_slice h2 fs2" "above (length h) fs2"
    and el: "elems h2 fs2 = elems h1 fs1 @ ?found"
    by auto
  obtain h3 res where ap: "go_append g h2 fs2 [zap_Strings AbsentFieldsKey ?absent] = (h3, res)"
    by (cases "go_append g h2 fs2 [zap_Strings AbsentFieldsKey ?absent]")
  have "GetFields g h ctx keys = (h3, res)"
    using mk r ap by (simp add: GetFields_def)
  moreover have "extends h h3"
    using go_append_extends [OF props(1) props(3) ap] by simp
  moreover have "wf_slice h3 res"
    using go_append_wf [OF g props(2) ap] .
  moreover have "elems h3 res = ?found @ [zap_Strings AbsentFieldsKey ?absent]"
    using go_append_elems [OF g props(2) ap] el m(4) by simp
  ultimately show ?thesis by blast
qed

lemma GetField_loop_None: "(GetField_loop xs k = None) = (\<forall>f \<in> set xs. Key f \<noteq> k)"
  by (induction xs) auto

lemma GetField_loop_Some:
  "GetField_loop xs k = Some r \<Longrightarrow>
     \<exists>i < length xs. r = (xs ! i, True) \<and> Key (xs ! i) = k \<and> (\<forall>j < i. Key (xs ! j) \<noteq> k)"
proof (induction xs)
  case Nil
  then show ?case by simp
next
  case (Cons x xs)
  show ?case
  proof (cases "Key x = k")
    case True
    with Cons.prems have "r = (x, True)" by simp
    with True show ?thesis by (intro exI [of _ 0]) simp
  next
    case False
    with Cons.prems have "GetField_loop xs k = Some r" by simp
    from Cons.IH [OF this] obtain i where
      i: "i < length xs" "r = (xs ! i, True)" "Key (xs ! i) = k" "\<forall>j < i. Key (xs ! j) \<noteq> k"
      by blast
    have "\<forall>j < Suc i. Key ((x # xs) ! j) \<noteq> k"
    proof (intro allI impI)
      fix j assume "j < Suc i"
      then show "Key ((x # xs) ! j) \<noteq> k"
        using False i(4) by (cases j) simp_all
    qed
    with i show ?thesis by (intro exI [of _ "Suc i"]) simp
  qed
qed

lemma valid_grow_double: "valid_grow grow_double"
  by (simp add: valid_grow_def grow_double_def)



lemma Append_result:
  assumes g: "valid_grow g" and lf: "wf_slice h (GetAll ctx)"
  shows "\<exists>h' s'. Append g h ctx F = (h', WithValue ctx loggerKey (fieldsVal s'))
     \<and> elems h' s' = elems h (GetAll ctx) @ elems h F
     \<and> (wf_slice h F \<longrightarrow> wf_slice h' s')
     \<and> (\<forall>t. wf_slice h t \<longrightarrow> wf_slice h' t)"
proof (cases "asFields (Value ctx loggerKey)")
  case None
  then show ?thesis by (simp add: Append_def GetAll_def)
next
  case (Some s)
  then have ga: "GetAll ctx = s" by (simp add: GetAll_def)
  obtain h' s' where ap: "go_append g h s (elems h F) = (h', s')"
    by (cases "go_append g h s (elems h F)")
  have ws: "wf_slice h s" using lf ga by simp
  have "Append g h ctx F = (h', WithValue ctx loggerKey (fieldsVal s'))"
    using Some ap by (simp add: Append_def)
  moreover have "elems h' s' = elems h (GetAll ctx) @ elems h F"
    using go_append_elems [OF g ws ap] ga by simp
  moreover have "wf_slice h' s'" using go_append_wf [OF g ws ap] .
  moreover have "\<forall>t. wf_slice h t \<longrightarrow> wf_slice h' t"
    using go_append_keeps_wf [OF ws ap] by blast
  ultimately show ?thesis by blast
qed

lemma GetAll_Set: "GetAll (Set ctx F) = F"
  by (simp add: GetAll_def Set_def)

lemma GetAll_WithValue: "GetAll (WithValue ctx loggerKey (fieldsVal s)) = s"
  by (simp add: GetAll_def)

lemma keys_last_occurrences: "Key ` set (last_occurrences xs) = Key ` set xs"
  by (induction xs) auto

lemma distinct_last_occurrences: "distinct (map Key (last_occurrences xs))"
proof (induction xs)
  case Nil
  then show ?case by simp
next
  case (Cons x xs)
  have "Key x \<notin> Key ` set xs \<Longrightarrow> Key x \<notin> Key ` set (last_occurrences xs)"
    by (simp add: keys_last_occurrences)
  with Cons.IH show ?case by simp
qed


lemma Prune_bound_not_nil:
  assumes "valid_grow g" and "asFields (Value ctx loggerKey) = Some lf" and "wf_slice h lf"
  shows "\<exists>h' ctx'. Prune g h ctx = Inr (h', ctx') \<and> GetAll ctx' \<noteq> NilSlice"
proof -
  from Prune_bound [OF assms]
  obtain h' p where "Prune g h ctx = Inr (h', Set ctx p)" "p \<noteq> NilSlice"
    by blast
  then show ?thesis by (auto simp: GetAll_Set)
qed

lemma store_nothing: "store arr pos [] = arr"
  by (simp add: store_def)

lemma go_append_full_extends:
  assumes "cap s = len s" and "wf_slice h s" and "go_append g h s xs = (h', s')"
  shows "extends h h'"
proof (cases rule: go_append_cases [of s xs g h])
  case nil
  with assms show ?thesis by (simp add: extends_refl)
next
  case (inplace b i n c)
  with assms have "xs = []" by simp
  with inplace assms have "h' = h[b := h ! b]" by (simp add: store_nothing)
  then show ?thesis by (simp add: extends_refl)
next
  case alloc
  with assms have "h' = h @ [elems h s @ xs @ replicate (g (cap s) (len s + length xs) - (len s + length xs)) zeroField]"
    by simp
  then show ?thesis by (simp add: extends_snoc extends_refl)
qed

lemma Append_sibling_kept_without_spare_capacity:
  assumes g: "valid_grow g" and lf: "wf_slice h (GetAll ctx)"
    and full: "cap (GetAll ctx) = len (GetAll ctx)" and F1: "wf_slice h F1"
    and a1: "Append g h ctx F1 = (h1, c1)" and a2: "Append g h1 ctx F2 = (h2, c2)"
  shows "elems h2 (GetAll c1) = elems h1 (GetAll c1)"
proof (cases "asFields (Value ctx loggerKey)")
  case None
  with a1 a2 show ?thesis by (simp add: Append_def)
next
  case (Some s)
  then have ga: "GetAll ctx = s" by (simp add: GetAll_def)
  obtain s1 where ap1: "go_append g h s (elems h F1) = (h1, s1)"
    and c1: "c1 = WithValue ctx loggerKey (fieldsVal s1)"
    using a1 Some by (cases "go_append g h s (elems h F1)") (simp add: Append_def)
  obtain s2 where ap2: "go_append g h1 s (elems h1 F2) = (h2, s2)"
    using a2 Some by (cases "go_append g h1 s (elems h1 F2)") (simp add: Append_def)
  have ws: "wf_slice h s" using lf ga by simp
  have w1: "wf_slice h1 s1" using go_append_wf [OF g ws ap1] .
  have ws1: "wf_slice h1 s" using go_append_keeps_wf [OF ws ap1 ws] .
  have "cap s = len s" using full ga by simp
  from go_append_full_extends [OF this ws1 ap2] have "extends h1 h2" .
  from extends_elems [OF this w1] show ?thesis by (simp add: c1 GetAll_WithValue)
qed

lemma all_less_Suc_shift:
  "(\<forall>j < Suc n. Suc i < j \<longrightarrow> Q j) = (\<forall>j < n. i < j \<longrightarrow> Q (Suc j))"
proof
  assume a: "\<forall>j < Suc n. Suc i < j \<longrightarrow> Q j"
  show "\<forall>j < n. i < j \<longrightarrow> Q (Suc j)"
  proof (intro allI impI)
    fix j assume "j < n" "i < j"
    then have "Suc j < Suc n" "Suc i < Suc j" by simp_all
    with a show "Q (Suc j)" by blast
  qed
next
  assume a: "\<forall>j < n. i < j \<longrightarrow> Q (Suc j)"
  show "\<forall>j < Suc n. Suc i < j \<longrightarrow> Q j"
  proof (intro allI impI)
    fix j assume j: "j < Suc n" "Suc i < j"
    then obtain j' where j': "j = Suc j'" by (cases j) simp_all
    with j have "j' < n" "i < j'" by simp_all
    with a j' show "Q j" by simp
  qed
qed

lemma all_less_Suc_zero:
  "(\<forall>j < Suc n. 0 < j \<longrightarrow> Q j) = (\<forall>j < n. Q (Suc j))"
proof
  assume a: "\<forall>j < Suc n. 0 < j \<longrightarrow> Q j"
  show "\<forall>j < n. Q (Suc j)"
  proof (intro allI impI)
    fix j assume "j < n"
    then have "Suc j < Suc n" "0 < Suc j" by simp_all
    with a show "Q (Suc j)" by blast
  qed
next
  assume a: "\<forall>j < n. Q (Suc j)"
  show "\<forall>j < Suc n. 0 < j \<longrightarrow> Q j"
  proof (intro allI impI)
    fix j assume j: "j < Suc n" "0 < j"
    then obtain j' where j': "j = Suc j'" by (cases j) simp_all
    with j have "j' < n" by simp
    with a j' show "Q j" by simp
  qed
qed

lemma key_later_iff:
  "(\<forall>j < length xs. Key (xs ! j) \<noteq> k) = (k \<notin> Key ` set xs)"
proof
  assume a: "\<forall>j < length xs. Key (xs ! j) \<noteq> k"
  show "k \<notin> Key ` set xs"
  proof
    assume "k \<in> Key ` set xs"
    then obtain f where "f \<in> set xs" "Key f = k" by auto
    then obtain j where "j < length xs" "xs ! j = f" by (auto simp: in_set_conv_nth)
    with a \<open>Key f = k\<close> show False by auto
  qed
next
  assume a: "k \<notin> Key ` set xs"
  show "\<forall>j < length xs. Key (xs ! j) \<noteq> k"
  proof (intro allI impI)
    fix j assume "j < length xs"
    then have "xs ! j \<in> set xs" by simp
    then have "Key (xs ! j) \<in> Key ` set xs" by (rule imageI)
    with a show "Key (xs ! j) \<noteq> k" by auto
  qed
qed

lemma last_occurrences_positions:
  "last_occurrences xs =
     map (\<lambda>i. xs ! i)
       (filter (\<lambda>i. \<forall>j < length xs. i < j \<longrightarrow> Key (xs ! j) \<noteq> Key (xs ! i)) [0..<length xs])"
proof (induction xs)
  case Nil
  then show ?case by simp
next
  case (Cons x xs)
  let ?P = "\<lambda>ys i. \<forall>j < length ys. i < j \<longrightarrow> Key (ys ! j) \<noteq> Key (ys ! i)"
  have upt: "[0..<length (x # xs)] = 0 # map Suc [0..<length xs]"
    by (simp add: upt_conv_Cons map_Suc_upt del: upt_Suc)
  have p0: "?P (x # xs) 0 = (Key x \<notin> Key ` set xs)"
    using all_less_Suc_zero [of "length xs" "\<lambda>j. Key ((x # xs) ! j) \<noteq> Key x"]
    by (simp add: key_later_iff)
  have pS: "?P (x # xs) (Suc i) = ?P xs i" for i
    using all_less_Suc_shift [of "length xs" i "\<lambda>j. Key ((x # xs) ! j) \<noteq> Key (xs ! i)"]
    by simp
  have tl: "filter (?P (x # xs)) (map Suc [0..<length xs]) = map Suc (filter (?P xs) [0..<length xs])"
    by (simp only: filter_map o_def pS)
  have mp: "map (\<lambda>i. (x # xs) ! i) (map Suc is) = map (\<lambda>i. xs ! i) is" for "is"
    by simp
  have flt: "filter (?P (x # xs)) [0..<length (x # xs)] =
      (if Key x \<notin> Key ` set xs then 0 # map Suc (filter (?P xs) [0..<length xs])
       else map Suc (filter (?P xs) [0..<length xs]))"
    by (simp only: upt filter.simps p0 tl)
  show ?case
  proof (cases "Key x \<in> Key ` set xs")
    case True
    then have "filter (?P (x # xs)) [0..<length (x # xs)] = map Suc (filter (?P xs) [0..<length xs])"
      by (simp only: flt not_True_eq_False if_False)
    then have "map (\<lambda>i. (x # xs) ! i) (filter (?P (x # xs)) [0..<length (x # xs)])
                 = map (\<lambda>i. xs ! i) (filter (?P xs) [0..<length xs])"
      by (simp only: mp)
    with True Cons.IH show ?thesis by (simp only: last_occurrences.simps if_True)
  next
    case False
    then have "filter (?P (x # xs)) [0..<length (x # xs)] = 0 # map Suc (filter (?P xs) [0..<length xs])"
      by (simp only: flt not_False_eq_True if_True)
    then have "map (\<lambda>i. (x # xs) ! i) (filter (?P (x # xs)) [0..<length (x # xs)])
                 = x # map (\<lambda>i. xs ! i) (filter (?P xs) [0..<length xs])"
      by (simp only: list.map mp nth_Cons_0)
    with False Cons.IH show ?thesis by (simp only: last_occurrences.simps if_False)
  qed
qed

lemma Append_part_000_prepends:
  assumes g: "valid_grow g" and F1: "wf_slice h F1" and F2: "wf_slice h F2"
  shows "\<exists>h' ctx'. Append_part_000 g h (Set ctx F1) F2 = (h', ctx')
     \<and> elems h' (GetAll ctx') = elems h F2 @ elems h F1"
proof -
  obtain h' s' where ap: "go_append g h F2 (elems h F1) = (h', s')"
    by (cases "go_append g h F2 (elems h F1)")
  have "Append_part_000 g h (Set ctx F1) F2 = (h', WithValue (Set ctx F1) loggerKey (fieldsVal s'))"
    using ap by (simp add: Append_part_000_def Set_def)
  moreover have "elems h' (GetAll (WithValue (Set ctx F1) loggerKey (fieldsVal s'))) = elems h F2 @ elems h F1"
    using go_append_elems [OF g F2 ap] by (simp add: GetAll_WithValue)
  ultimately show ?thesis by blast
qed

lemma Append_chain_overwrites_sibling:
  "(case Append grow_double chain_heap (Set Background (Slice 0 0 1 1)) (Slice 1 0 1 1) of
      (h1, ctx2) \<Rightarrow>
        (case Append grow_double h1 ctx2 (Slice 2 0 1 1) of
           (h2, ctx3) \<Rightarrow>
             (case Append grow_double h2 ctx3 (Slice 3 0 1 1) of
                (h3, c1) \<Rightarrow>
                  (case Append grow_double h3 ctx3 (Slice 4 0 1 1) of
                     (h4, c2) \<Rightarrow>
                       GetAll ctx3 = Slice 6 0 3 4
                       \<and> elems h3 (GetAll c1) =
                           [zap_String ''a'' ''1'', zap_String ''b'' ''2'', zap_String ''c'' ''3'',
                            zap_String ''x'' ''4'']
                       \<and> elems h4 (GetAll c1) =
                           [zap_String ''a'' ''1'', zap_String ''b'' ''2'', zap_String ''c'' ''3'',
                            zap_String ''y'' ''5'']))))"
  by (simp add: Append_def Set_def GetAll_def chain_heap_def go_append.simps store_def
      grow_double_def)

section \<open>The claims\<close>

text \<open>
  C1. Two \<^verbatim>\<open>Append\<close> calls on one parent context should leave each other's result alone.
  Evaluated on the code: the parent's bound slice has one field and capacity for four;
  the first \<^verbatim>\<open>Append\<close> adds \<open>span_id = S1\<close> and its result shows \<open>[trace_id, span_id = S1]\<close>;
  the second \<^verbatim>\<open>Append\<close> on the same parent adds \<open>span_id = S2\<close>, writes it into the same
  cell of the shared backing array, and the context returned by the first call now shows
  \<open>[trace_id, span_id = S2]\<close>.
\<close>

theorem Append_overwrites_sibling:
  "(case Append grow_double ex_heap (Set Background (Slice 0 0 1 4)) (Slice 1 0 1 1) of
      (h1, c1) \<Rightarrow>
        (case Append grow_double h1 (Set Background (Slice 0 0 1 4)) (Slice 2 0 1 1) of
           (h2, c2) \<Rightarrow>
             elems h1 (GetAll c1) = [zap_String ''trace_id'' ''T1'', zap_String ''span_id'' ''S1'']
             \<and> elems h2 (GetAll c1) = [zap_String ''trace_id'' ''T1'', zap_String ''span_id'' ''S2'']
             \<and> elems h2 (GetAll c2) = [zap_String ''trace_id'' ''T1'', zap_String ''span_id'' ''S2'']))"
  by (simp add: Append_def Set_def GetAll_def ex_heap_def go_append.simps store_def)

text \<open>
  C2. \<^verbatim>\<open>Prune\<close> of a context with a bound sequence returns a context whose sequence has
  exactly one field for every key of the bound sequence and none for any other key, and
  the field kept for a key is its last occurrence in the bound sequence. In particular,
  after \<^verbatim>\<open>Set\<close> with \<open>a = 1\<close> and \<^verbatim>\<open>Append\<close> with \<open>a = 2\<close>, \<^verbatim>\<open>Prune\<close> leaves exactly the one
  field \<open>a = 2\<close>.
\<close>

theorem Prune_keeps_last_per_key:
  assumes "valid_grow g"
    and "asFields (Value ctx loggerKey) = Some lf" and "wf_slice h lf"
    and "wf_slice h0 F1" and "elems h0 F1 = [zap_Int64 ''a'' 1]"
    and "wf_slice h0 F2" and "elems h0 F2 = [zap_Int64 ''a'' 2]"
  shows "(\<exists>h' ctx'. Prune g h ctx = Inr (h', ctx')
           \<and> distinct (map Key (elems h' (GetAll ctx')))
           \<and> (\<forall>k. filter (\<lambda>f. Key f = k) (elems h' (GetAll ctx')) =
                 (if k \<in> Key ` set (elems h lf)
                  then [last (filter (\<lambda>f. Key f = k) (elems h lf))] else [])))
       \<and> (\<exists>h1 c1 h2 c2. Append g h0 (Set ctx0 F1) F2 = (h1, c1)
           \<and> Prune g h1 c1 = Inr (h2, c2)
           \<and> elems h2 (GetAll c2) = [zap_Int64 ''a'' 2])"
proof
  from Prune_bound [OF assms(1-3)]
  obtain h' p where r: "Prune g h ctx = Inr (h', Set ctx p)"
    and el: "elems h' p = rev (last_occurrences (elems h lf))"
    by blast
  have "distinct (map Key (elems h' (GetAll (Set ctx p))))"
    using el by (simp add: GetAll_Set distinct_last_occurrences rev_map [symmetric])
  moreover have "\<forall>k. filter (\<lambda>f. Key f = k) (elems h' (GetAll (Set ctx p))) =
                 (if k \<in> Key ` set (elems h lf)
                  then [last (filter (\<lambda>f. Key f = k) (elems h lf))] else [])"
    using el by (simp add: GetAll_Set rev_filter [symmetric] filter_last_occurrences)
  ultimately show "\<exists>h' ctx'. Prune g h ctx = Inr (h', ctx')
           \<and> distinct (map Key (elems h' (GetAll ctx')))
           \<and> (\<forall>k. filter (\<lambda>f. Key f = k) (elems h' (GetAll ctx')) =
                 (if k \<in> Key ` set (elems h lf)
                  then [last (filter (\<lambda>f. Key f = k) (elems h lf))] else []))"
    using r by blast
next
  have "wf_slice h0 (GetAll (Set ctx0 F1))" using assms(4) by (simp add: GetAll_Set)
  from Append_result [OF assms(1) this, of F2]
  obtain h1 s1 where a: "Append g h0 (Set ctx0 F1) F2 = (h1, WithValue (Set ctx0 F1) loggerKey (fieldsVal s1))"
    and el1: "elems h1 s1 = [zap_Int64 ''a'' 1, zap_Int64 ''a'' 2]"
    and w1: "wf_slice h1 s1"
    using assms(5-7) by (auto simp: GetAll_Set)
  let ?c1 = "WithValue (Set ctx0 F1) loggerKey (fieldsVal s1)"
  have v: "asFields (Value ?c1 loggerKey) = Some s1" by simp
  from Prune_bound [OF assms(1) v w1]
  obtain h2 p where r: "Prune g h1 ?c1 = Inr (h2, Set ?c1 p)"
    and el: "elems h2 p = rev (last_occurrences (elems h1 s1))"
    by blast
  have "elems h2 (GetAll (Set ?c1 p)) = [zap_Int64 ''a'' 2]"
    using el el1 by (simp add: GetAll_Set zap_Int64_def)
  with a r show "\<exists>h1 c1 h2 c2. Append g h0 (Set ctx0 F1) F2 = (h1, c1)
           \<and> Prune g h1 c1 = Inr (h2, c2)
           \<and> elems h2 (GetAll c2) = [zap_Int64 ''a'' 2]"
    by blast
qed

theorem Prune_keeps_last_per_key_witness:
  "valid_grow grow_double
   \<and> asFields (Value (Set Background (Slice 0 0 3 3)) loggerKey) = Some (Slice 0 0 3 3)
   \<and> wf_slice dup_heap (Slice 0 0 3 3)
   \<and> wf_slice dup_heap (Slice 1 0 1 1) \<and> elems dup_heap (Slice 1 0 1 1) = [zap_Int64 ''a'' 1]
   \<and> wf_slice dup_heap (Slice 2 0 1 1) \<and> elems dup_heap (Slice 2 0 1 1) = [zap_Int64 ''a'' 2]
   \<and> (\<exists>h' ctx'. Prune grow_double dup_heap (Set Background (Slice 0 0 3 3)) = Inr (h', ctx')
         \<and> filter (\<lambda>f. Key f = ''a'') (elems h' (GetAll ctx')) = [zap_Int64 ''a'' 3]
         \<and> filter (\<lambda>f. Key f = ''b'') (elems h' (GetAll ctx')) = [zap_Int64 ''b'' 7]
         \<and> filter (\<lambda>f. Key f = ''c'') (elems h' (GetAll ctx')) = [])
   \<and> (\<exists>h1 c1 h2 c2.
         Append grow_double dup_heap (Set TODO (Slice 1 0 1 1)) (Slice 2 0 1 1) = (h1, c1)
         \<and> Prune grow_double h1 c1 = Inr (h2, c2)
         \<and> elems h2 (GetAll c2) = [zap_Int64 ''a'' 2])"
proof -
  let ?c = "Set Background (Slice 0 0 3 3)"
  have hyps: "valid_grow grow_double"
    "asFields (Value ?c loggerKey) = Some (Slice 0 0 3 3)"
    "wf_slice dup_heap (Slice 0 0 3 3)"
    "wf_slice dup_heap (Slice 1 0 1 1)" "elems dup_heap (Slice 1 0 1 1) = [zap_Int64 ''a'' 1]"
    "wf_slice dup_heap (Slice 2 0 1 1)" "elems dup_heap (Slice 2 0 1 1) = [zap_Int64 ''a'' 2]"
    by (simp_all add: valid_grow_double dup_heap_def Set_def)
  note t = Prune_keeps_last_per_key [OF hyps, of TODO]
  from t obtain h' ctx' where p: "Prune grow_double dup_heap ?c = Inr (h', ctx')"
    and f: "\<And>k. filter (\<lambda>f. Key f = k) (elems h' (GetAll ctx')) =
                 (if k \<in> Key ` set (elems dup_heap (Slice 0 0 3 3))
                  then [last (filter (\<lambda>f. Key f = k) (elems dup_heap (Slice 0 0 3 3)))] else [])"
    by blast
  have "filter (\<lambda>f. Key f = ''a'') (elems h' (GetAll ctx')) = [zap_Int64 ''a'' 3]"
    "filter (\<lambda>f. Key f = ''b'') (elems h' (GetAll ctx')) = [zap_Int64 ''b'' 7]"
    "filter (\<lambda>f. Key f = ''c'') (elems h' (GetAll ctx')) = []"
    by (simp_all add: f dup_heap_def zap_Int64_def)
  with p t hyps show ?thesis by blast
qed

text \<open>
  C3. After \<^verbatim>\<open>Set\<close> with \<open>F1\<close>, \<^verbatim>\<open>Append\<close> with \<open>F2\<close> binds the fields of \<open>F1\<close> followed by
  the fields of \<open>F2\<close>: every field of both, the existing ones first, \<open>|F1| + |F2|\<close> in all.
\<close>

theorem Append_after_Set_concatenates:
  assumes "valid_grow g" and "wf_slice h F1" and "wf_slice h F2"
  shows "\<exists>h' ctx'. Append g h (Set ctx F1) F2 = (h', ctx')
     \<and> elems h' (GetAll ctx') = elems h F1 @ elems h F2
     \<and> length (elems h' (GetAll ctx')) = len F1 + len F2
     \<and> set (elems h' (GetAll ctx')) = set (elems h F1) \<union> set (elems h F2)"
proof -
  have "wf_slice h (GetAll (Set ctx F1))" using assms(2) by (simp add: GetAll_Set)
  from Append_result [OF assms(1) this, of F2]
  obtain h' s' where r: "Append g h (Set ctx F1) F2 = (h', WithValue (Set ctx F1) loggerKey (fieldsVal s'))"
    and el: "elems h' s' = elems h F1 @ elems h F2"
    by (auto simp: GetAll_Set)
  have "elems h' (GetAll (WithValue (Set ctx F1) loggerKey (fieldsVal s'))) = elems h F1 @ elems h F2"
    using el by (simp add: GetAll_WithValue)
  moreover from this have "length (elems h' (GetAll (WithValue (Set ctx F1) loggerKey (fieldsVal s')))) = len F1 + len F2"
    using assms(2,3) by (simp add: length_elems)
  ultimately show ?thesis using r by (intro exI [of _ h'] exI [of _ "WithValue (Set ctx F1) loggerKey (fieldsVal s')"]) simp
qed

theorem Append_after_Set_concatenates_witness:
  "valid_grow grow_double \<and> wf_slice ex_heap (Slice 0 0 1 4) \<and> wf_slice ex_heap (Slice 1 0 1 1)
   \<and> (\<exists>h' ctx'. Append grow_double ex_heap (Set TODO (Slice 0 0 1 4)) (Slice 1 0 1 1) = (h', ctx')
     \<and> elems h' (GetAll ctx') = [zap_String ''trace_id'' ''T1'', zap_String ''span_id'' ''S1'']
     \<and> length (elems h' (GetAll ctx')) = 2)"
  using Append_after_Set_concatenates [of grow_double ex_heap "Slice 0 0 1 4" "Slice 1 0 1 1" TODO]
  by (auto simp add: valid_grow_double ex_heap_def)

text \<open>
  C4. For every context and every list of requested keys, \<^verbatim>\<open>GetFields\<close> returns the fields
  found, in the order of the request, followed by exactly one more field: its key is
  \<^verbatim>\<open>AbsentFieldsKey\<close>, the constant \<open>_absentFields\<close>, and its value is the list of the
  requested keys that were not found, in the order of the request. That field is there also
  when no key is absent, and for no keys at all it is the whole result, with an empty list.
\<close>

theorem GetFields_appends_absent_field:
  assumes "valid_grow g" and "wf_slice h (GetAll ctx)"
  shows "(\<exists>h' res. GetFields g h ctx keys = (h', res)
           \<and> elems h' res =
               map (\<lambda>k. fst (GetField h ctx k)) (filter (\<lambda>k. snd (GetField h ctx k)) keys)
               @ [zap_Strings AbsentFieldsKey (filter (\<lambda>k. \<not> snd (GetField h ctx k)) keys)])
       \<and> (\<exists>h' res. GetFields g h ctx [] = (h', res)
           \<and> elems h' res = [zap_Strings AbsentFieldsKey []])
       \<and> Key (zap_Strings AbsentFieldsKey absent) = ''_absentFields''
       \<and> Interface (zap_Strings AbsentFieldsKey absent) = stringArray absent"
proof -
  have "\<exists>h' res. GetFields g h ctx keys = (h', res)
           \<and> elems h' res =
               map (\<lambda>k. fst (GetField h ctx k)) (filter (\<lambda>k. snd (GetField h ctx k)) keys)
               @ [zap_Strings AbsentFieldsKey (filter (\<lambda>k. \<not> snd (GetField h ctx k)) keys)]"
    using GetFields_result [OF assms, of keys] by blast
  moreover have "\<exists>h' res. GetFields g h ctx [] = (h', res)
           \<and> elems h' res = [zap_Strings AbsentFieldsKey []]"
    using GetFields_result [OF assms, of "[]"] by auto
  moreover have "Key (zap_Strings AbsentFieldsKey absent) = ''_absentFields''"
    "Interface (zap_Strings AbsentFieldsKey absent) = stringArray absent"
    by (simp_all add: zap_Strings_def AbsentFieldsKey_def)
  ultimately show ?thesis by blast
qed

theorem GetFields_appends_absent_field_witness:
  "valid_grow grow_double \<and> wf_slice ex_heap (GetAll (Set TODO (Slice 0 0 1 4)))
   \<and> (\<exists>h' res. GetFields grow_double ex_heap (Set TODO (Slice 0 0 1 4)) [''trace_id'', ''missing_id'']
                   = (h', res)
         \<and> elems h' res =
             [zap_String ''trace_id'' ''T1'', zap_Strings ''_absentFields'' [''missing_id'']])
   \<and> (\<exists>h' res. GetFields grow_double ex_heap (Set TODO (Slice 0 0 1 4)) [] = (h', res)
         \<and> elems h' res = [zap_Strings ''_absentFields'' []])"
proof -
  let ?c = "Set TODO (Slice 0 0 1 4)"
  have hyps: "valid_grow grow_double" "wf_slice ex_heap (GetAll ?c)"
    by (simp_all add: valid_grow_double GetAll_Set ex_heap_def)
  have gf: "GetField ex_heap ?c ''trace_id'' = (zap_String ''trace_id'' ''T1'', True)"
    "GetField ex_heap ?c ''missing_id'' = (zeroField, False)"
    by (simp_all add: GetField_GetAll GetAll_Set ex_heap_def zap_String_def)
  note t = GetFields_appends_absent_field [OF hyps, of "[''trace_id'', ''missing_id'']"]
  from t gf hyps show ?thesis by (simp add: AbsentFieldsKey_def)
qed

text \<open>
  C5. \<^verbatim>\<open>GetAll\<close> after \<^verbatim>\<open>Set\<close> with \<open>F\<close> is \<open>F\<close> itself, whatever was bound to the context
  before: \<^verbatim>\<open>Set\<close> replaces the bound sequence.
\<close>

theorem Set_replaces_bound_sequence:
  "GetAll (Set ctx F) = F \<and> elems h (GetAll (Set ctx F)) = elems h F
   \<and> GetAll (Set (Set ctx G) F) = F"
  by (simp add: GetAll_Set)

theorem Set_replaces_bound_sequence_witness:
  "GetAll (Set (Set Background (Slice 0 0 1 4)) (Slice 1 0 1 1)) = Slice 1 0 1 1
   \<and> elems ex_heap (GetAll (Set (Set Background (Slice 0 0 1 4)) (Slice 1 0 1 1)))
       = [zap_String ''span_id'' ''S1'']"
  using Set_replaces_bound_sequence [of "Set Background (Slice 0 0 1 4)" "Slice 1 0 1 1" ex_heap]
  by (simp add: ex_heap_def)

text \<open>
  C6. Let \<open>L\<close> be the bound sequence of a context (empty when nothing is bound). If \<open>L\<close>
  has a field with key \<open>k\<close>, \<^verbatim>\<open>GetField\<close> returns the first of them in the order of \<open>L\<close>,
  with the flag true: the field at a position \<open>i\<close> with no field of key \<open>k\<close> before it.
  Otherwise it returns the zero field with the flag false; the zero field does not carry
  the key of the absent-fields marker.
\<close>

theorem GetField_first_match:
  assumes "L = elems h (GetAll ctx)"
  shows "if \<exists>f \<in> set L. Key f = k
         then \<exists>i < length L. GetField h ctx k = (L ! i, True) \<and> Key (L ! i) = k
                 \<and> (\<forall>j < i. Key (L ! j) \<noteq> k)
         else GetField h ctx k = (zeroField, False)
                 \<and> Key (fst (GetField h ctx k)) \<noteq> AbsentFieldsKey"
proof (cases "GetField_loop L k")
  case None
  then have "\<not> (\<exists>f \<in> set L. Key f = k)" by (simp add: GetField_loop_None)
  moreover have "GetField h ctx k = (zeroField, False)"
    using None assms by (simp add: GetField_GetAll)
  moreover have "Key zeroField \<noteq> AbsentFieldsKey"
    by (simp add: zeroField_def AbsentFieldsKey_def)
  ultimately show ?thesis by simp
next
  case (Some r)
  then have "\<exists>f \<in> set L. Key f = k"
    using GetField_loop_None [of L k] by auto
  moreover have "GetField h ctx k = r"
    using Some assms by (simp add: GetField_GetAll)
  ultimately show ?thesis using GetField_loop_Some [OF Some] by auto
qed

theorem GetField_first_match_witness:
  "GetField dup_heap (Set TODO (Slice 0 0 3 3)) ''a'' = (zap_Int64 ''a'' 1, True)
   \<and> GetField dup_heap (Set TODO (Slice 0 0 3 3)) ''missing'' = (zeroField, False)
   \<and> GetField dup_heap TODO ''a'' = (zeroField, False)"
proof -
  let ?L = "[zap_Int64 ''a'' 1, zap_Int64 ''b'' 7, zap_Int64 ''a'' 3]"
  have L: "?L = elems dup_heap (GetAll (Set TODO (Slice 0 0 3 3)))"
    by (simp add: GetAll_Set dup_heap_def)
  have N: "[] = elems dup_heap (GetAll TODO)"
    by (simp add: GetAll_def)
  have ex: "\<exists>f \<in> set ?L. Key f = ''a''"
    by (simp add: zap_Int64_def)
  have "\<exists>i < length ?L. GetField dup_heap (Set TODO (Slice 0 0 3 3)) ''a'' = (?L ! i, True)
          \<and> Key (?L ! i) = ''a'' \<and> (\<forall>j < i. Key (?L ! j) \<noteq> ''a'')"
    using GetField_first_match [OF L, of "''a''"] ex by (simp only: if_True)
  then obtain i where i: "i < length ?L"
    "GetField dup_heap (Set TODO (Slice 0 0 3 3)) ''a'' = (?L ! i, True)"
    "\<forall>j < i. Key (?L ! j) \<noteq> ''a''"
    by blast
  have "i = 0"
  proof (rule ccontr)
    assume "i \<noteq> 0"
    then have "0 < i" by simp
    with i(3) have "Key (?L ! 0) \<noteq> ''a''" by blast
    then show False by (simp add: zap_Int64_def)
  qed
  with i(2) have "GetField dup_heap (Set TODO (Slice 0 0 3 3)) ''a'' = (zap_Int64 ''a'' 1, True)"
    by simp
  moreover from GetField_first_match [OF L, of "''missing''"]
  have "GetField dup_heap (Set TODO (Slice 0 0 3 3)) ''missing'' = (zeroField, False)"
    by (simp add: zap_Int64_def)
  moreover from GetField_first_match [OF N, of "''a''"]
  have "GetField dup_heap TODO ''a'' = (zeroField, False)"
    by simp
  ultimately show ?thesis by simp
qed

text \<open>
  C7. On a context with no bound field sequence, \<^verbatim>\<open>GetAll\<close> returns the nil slice, which
  has no fields: so on \<^verbatim>\<open>context.Background()\<close>, on \<^verbatim>\<open>context.TODO()\<close>, and on every context
  where the store's key is unbound or bound to something that is not a field slice.
  \<^verbatim>\<open>GetAll\<close> has no failing branch.
\<close>

theorem GetAll_without_binding:
  "GetAll Background = NilSlice \<and> GetAll TODO = NilSlice
   \<and> (asFields (Value ctx loggerKey) = None \<longrightarrow>
        GetAll ctx = NilSlice \<and> len (GetAll ctx) = 0 \<and> elems h (GetAll ctx) = [])"
  by (simp add: GetAll_def)

theorem GetAll_without_binding_witness:
  "asFields (Value (WithValue TODO (foreignKey 7) (foreignVal 1)) loggerKey) = None
   \<and> GetAll (WithValue TODO (foreignKey 7) (foreignVal 1)) = NilSlice
   \<and> elems ex_heap (GetAll (WithValue TODO (foreignKey 7) (foreignVal 1))) = []"
  using GetAll_without_binding [of "WithValue TODO (foreignKey 7) (foreignVal 1)" ex_heap]
  by (simp add: loggerKey_def)



text \<open>
  C9. For a context with a bound sequence \<open>L\<close>, the sequence bound by \<^verbatim>\<open>Prune\<close> is the
  reverse of the last occurrences of the keys of \<open>L\<close> taken in the order of \<open>L\<close>: the reverse
  of the fields at the positions \<open>i\<close> of \<open>L\<close> whose key does not occur at a later position.
  The most recently bound field comes first.
\<close>

theorem Prune_emits_most_recent_first:
  assumes "valid_grow g" and "asFields (Value ctx loggerKey) = Some lf" and "wf_slice h lf"
    and L: "L = elems h lf"
  shows "\<exists>h' ctx'. Prune g h ctx = Inr (h', ctx')
     \<and> elems h' (GetAll ctx') = rev (last_occurrences L)
     \<and> elems h' (GetAll ctx') =
         rev (map (\<lambda>i. L ! i)
           (filter (\<lambda>i. \<forall>j < length L. i < j \<longrightarrow> Key (L ! j) \<noteq> Key (L ! i)) [0..<length L]))"
proof -
  from Prune_bound [OF assms(1-3)]
  obtain h' p where r: "Prune g h ctx = Inr (h', Set ctx p)"
    and el: "elems h' p = rev (last_occurrences (elems h lf))"
    by blast
  have "elems h' (GetAll (Set ctx p)) = rev (last_occurrences L)"
    using el L by (simp add: GetAll_Set)
  moreover from this have "elems h' (GetAll (Set ctx p)) =
         rev (map (\<lambda>i. L ! i)
           (filter (\<lambda>i. \<forall>j < length L. i < j \<longrightarrow> Key (L ! j) \<noteq> Key (L ! i)) [0..<length L]))"
    by (simp only: last_occurrences_positions [symmetric])
  ultimately show ?thesis using r by blast
qed

theorem Prune_emits_most_recent_first_witness:
  "valid_grow grow_double
   \<and> asFields (Value (Set Background (Slice 0 0 3 3)) loggerKey) = Some (Slice 0 0 3 3)
   \<and> wf_slice dup_heap (Slice 0 0 3 3)
   \<and> elems dup_heap (Slice 0 0 3 3) = [zap_Int64 ''a'' 1, zap_Int64 ''b'' 7, zap_Int64 ''a'' 3]
   \<and> (\<exists>h' ctx'. Prune grow_double dup_heap (Set Background (Slice 0 0 3 3)) = Inr (h', ctx')
         \<and> elems h' (GetAll ctx') = [zap_Int64 ''a'' 3, zap_Int64 ''b'' 7])"
proof -
  let ?c = "Set Background (Slice 0 0 3 3)"
  have hyps: "valid_grow grow_double"
    "asFields (Value ?c loggerKey) = Some (Slice 0 0 3 3)"
    "wf_slice dup_heap (Slice 0 0 3 3)"
    by (simp_all add: valid_grow_double dup_heap_def Set_def)
  have el: "[zap_Int64 ''a'' 1, zap_Int64 ''b'' 7, zap_Int64 ''a'' 3] = elems dup_heap (Slice 0 0 3 3)"
    by (simp add: dup_heap_def)
  have "rev (last_occurrences [zap_Int64 ''a'' 1, zap_Int64 ''b'' 7, zap_Int64 ''a'' 3])
          = [zap_Int64 ''a'' 3, zap_Int64 ''b'' 7]"
    by (simp add: zap_Int64_def)
  with Prune_emits_most_recent_first [OF hyps el] el hyps show ?thesis by auto
qed

text \<open>
  C10. On a context with no bound field sequence \<^verbatim>\<open>Prune\<close> returns the store and the
  context it was given: nothing is bound, and \<^verbatim>\<open>GetAll\<close> on the result is still the nil
  slice.
\<close>

theorem Prune_without_binding_returns_input:
  assumes "asFields (Value ctx loggerKey) = None"
  shows "Prune g h ctx = Inr (h, ctx) \<and> asFields (Value ctx loggerKey) = None
     \<and> GetAll ctx = NilSlice"
  using assms by (simp add: Prune_def GetAll_def)

theorem Prune_without_binding_returns_input_witness:
  "asFields (Value (WithValue Background (foreignKey 7) (foreignVal 1)) loggerKey) = None
   \<and> Prune grow_double ex_heap (WithValue Background (foreignKey 7) (foreignVal 1))
       = Inr (ex_heap, WithValue Background (foreignKey 7) (foreignVal 1))
   \<and> GetAll (WithValue Background (foreignKey 7) (foreignVal 1)) = NilSlice"
proof -
  have h: "asFields (Value (WithValue Background (foreignKey 7) (foreignVal 1)) loggerKey) = None"
    by (simp add: loggerKey_def)
  from Prune_without_binding_returns_input [OF h, of grow_double ex_heap] h
  show ?thesis by simp
qed

end
